theory Spec2Isabelle
  imports Complex_Main "HOL-Library.Char_ord" "HOL-Library.List_Lexorder" "HOL-Library.Option_ord"
    "HOL-Library.Multiset"
begin

section \<open>Python values used by the gallery generator\<close>

text \<open>
  A Python \<open>str\<close> is modelled by \<^typ>\<open>string\<close>: a list of characters whose codes are
  the code points 0..255. Comparison of strings is by code point, position by position,
  a proper prefix coming first, as Python's \<open><\<close> on \<open>str\<close>. Python's \<open>int\<close> is
  \<^typ>\<open>int\<close>; \<open>len\<close> of a list is a \<^typ>\<open>nat\<close>.
\<close>

text \<open>
  The exceptions of the model: \<open>ZeroDivisionError\<close> of \<open>//\<close>, \<open>ValueError\<close> of
  \<open>datetime.strptime\<close>, and \<open>ApiError\<close>, with its message, for any exception raised by a
  call of the storage client.
\<close>

datatype error = ZeroDivisionError | ValueError | ApiError string

subsection \<open>String operations\<close>

definition code_point :: "char \<Rightarrow> nat" where
  "code_point c = of_char c"

definition is_digit :: "char \<Rightarrow> bool" where
  \<comment> \<open>\<open>\d\<close> of the \<open>re\<close> module; below code point 256 the decimal digits are \<open>0\<close>..\<open>9\<close>\<close>
  "is_digit c = (48 \<le> code_point c \<and> code_point c \<le> 57)"

definition digit_val :: "char \<Rightarrow> nat" where
  "digit_val c = code_point c - 48"

definition int_of_digits :: "string \<Rightarrow> nat" where
  \<comment> \<open>\<open>int(s)\<close> for a string of decimal digits\<close>
  "int_of_digits s = foldl (\<lambda>a c. 10 * a + digit_val c) 0 s"

definition lower_char :: "char \<Rightarrow> char" where
  "lower_char c =
     (let n = code_point c
      in if (65 \<le> n \<and> n \<le> 90) \<or> (192 \<le> n \<and> n \<le> 222 \<and> n \<noteq> 215)
         then char_of (n + 32) else c)"

definition lower :: "string \<Rightarrow> string" where
  \<comment> \<open>\<open>str.lower()\<close>\<close>
  "lower s = map lower_char s"

definition endswith :: "string \<Rightarrow> string \<Rightarrow> bool" where
  \<comment> \<open>\<open>s.endswith(suffix)\<close>\<close>
  "endswith s suffix =
     (length suffix \<le> length s \<and> drop (length s - length suffix) s = suffix)"

definition startswith :: "string \<Rightarrow> string \<Rightarrow> bool" where
  \<comment> \<open>\<open>s.startswith(prefix)\<close>\<close>
  "startswith s pre = (take (length pre) s = pre)"

definition rstrip :: "char \<Rightarrow> string \<Rightarrow> string" where
  \<comment> \<open>\<open>s.rstrip(ch)\<close> for a single character \<open>ch\<close>\<close>
  "rstrip ch s = rev (dropWhile (\<lambda>c. c = ch) (rev s))"

definition basename :: "string \<Rightarrow> string" where
  \<comment> \<open>\<open>os.path.basename\<close> (posixpath): \<open>p[p.rfind('/') + 1:]\<close>\<close>
  "basename p = rev (takeWhile (\<lambda>c. c \<noteq> CHR ''/'') (rev p))"

definition str_replace :: "char \<Rightarrow> string \<Rightarrow> string \<Rightarrow> string" where
  \<comment> \<open>\<open>s.replace(old, new)\<close> for a single character \<open>old\<close>\<close>
  "str_replace old new s = concat (map (\<lambda>c. if c = old then new else [c]) s)"

fun join :: "string \<Rightarrow> string list \<Rightarrow> string" where
  \<comment> \<open>\<open>sep.join(xs)\<close>\<close>
  "join sep [] = []"
| "join sep [x] = x"
| "join sep (x # y # ys) = x @ sep @ join sep (y # ys)"

definition digit_char :: "nat \<Rightarrow> char" where
  "digit_char d = char_of (48 + d)"

function str_nat :: "nat \<Rightarrow> string" where
  "str_nat n = (if n < 10 then [digit_char n] else str_nat (n div 10) @ [digit_char (n mod 10)])"
  by pat_completeness auto
termination
  by (relation "measure (\<lambda>n. n)") auto

declare str_nat.simps [simp del]

definition str_int :: "int \<Rightarrow> string" where
  \<comment> \<open>\<open>str(i)\<close> for an \<open>int\<close>\<close>
  "str_int i = (if i < 0 then CHR ''-'' # str_nat (nat (- i)) else str_nat (nat i))"

definition zpad :: "nat \<Rightarrow> nat \<Rightarrow> string" where
  \<comment> \<open>\<open>'%0wd' % n\<close>: decimal, padded with zeros on the left to width \<open>w\<close>\<close>
  "zpad w n = replicate (w - length (str_nat n)) (CHR ''0'') @ str_nat n"

definition truthy :: "string option \<Rightarrow> bool" where
  \<comment> \<open>truth value of an optional \<open>str\<close>: \<open>None\<close> and \<open>''\<close> are false\<close>
  "truthy v = (case v of None \<Rightarrow> False | Some s \<Rightarrow> s \<noteq> [])"

subsection \<open>Dates\<close>

record datetime =
  year :: nat
  month :: nat
  day :: nat
  hour :: nat
  minute :: nat
  second :: nat
  microsecond :: nat
  utcoffset :: "int option"  \<comment> \<open>minutes east of UTC; \<open>None\<close> for a naive value\<close>

definition is_leap :: "nat \<Rightarrow> bool" where
  "is_leap y = (y mod 4 = 0 \<and> (y mod 100 \<noteq> 0 \<or> y mod 400 = 0))"

definition days_in_month :: "nat \<Rightarrow> nat \<Rightarrow> nat" where
  "days_in_month y m =
     (if m = 2 then (if is_leap y then 29 else 28)
      else if m = 4 \<or> m = 6 \<or> m = 9 \<or> m = 11 then 30 else 31)"

definition valid_date :: "nat \<Rightarrow> nat \<Rightarrow> nat \<Rightarrow> bool" where
  \<comment> \<open>the dates \<open>datetime(y, m, d)\<close> accepts: \<open>MINYEAR = 1\<close>, \<open>MAXYEAR = 9999\<close>\<close>
  "valid_date y m d =
     (1 \<le> y \<and> y \<le> 9999 \<and> 1 \<le> m \<and> m \<le> 12 \<and> 1 \<le> d \<and> d \<le> days_in_month y m)"

text \<open>
  \<open>datetime.strptime(s, '%Y%m%d')\<close> matches \<open>s\<close> from its start against the regular
  expression the library builds from the format,
  \<^verbatim>\<open>(?P<Y>\d\d\d\d)(?P<m>1[0-2]|0[1-9]|[1-9])(?P<d>3[0-1]|[1-2]\d|0[1-9]|[1-9]| [1-9])\<close>,
  raises \<open>ValueError\<close> when there is no match or when the match stops before the end
  of \<open>s\<close>, and then builds the date, which raises \<open>ValueError\<close> for a day or year
  out of range. The alternatives are tried in the order written.
\<close>

definition match_Y :: "string \<Rightarrow> (nat \<times> string) list" where
  "match_Y s = (if 4 \<le> length s \<and> list_all is_digit (take 4 s)
                then [(int_of_digits (take 4 s), drop 4 s)] else [])"

definition in_range :: "char \<Rightarrow> nat \<Rightarrow> nat \<Rightarrow> bool" where
  "in_range c lo hi = (48 + lo \<le> code_point c \<and> code_point c \<le> 48 + hi)"

fun alt2 :: "nat \<Rightarrow> nat \<Rightarrow> nat \<Rightarrow> string \<Rightarrow> (nat \<times> string) list" where
  \<comment> \<open>one alternative of two characters: the digit \<open>t\<close>, then a digit in \<open>lo..hi\<close>\<close>
  "alt2 t lo hi (a # b # r) =
     (if a = digit_char t \<and> in_range b lo hi then [(10 * t + digit_val b, r)] else [])"
| "alt2 t lo hi _ = []"

fun alt1 :: "string \<Rightarrow> (nat \<times> string) list" where
  \<comment> \<open>the alternative \<open>[1-9]\<close>\<close>
  "alt1 (a # r) = (if in_range a 1 9 then [(digit_val a, r)] else [])"
| "alt1 _ = []"

fun alt_space :: "string \<Rightarrow> (nat \<times> string) list" where
  \<comment> \<open>the alternative \<open> [1-9]\<close>: a space, then a digit\<close>
  "alt_space (a # b # r) =
     (if a = CHR '' '' \<and> in_range b 1 9 then [(digit_val b, r)] else [])"
| "alt_space _ = []"

definition match_m :: "string \<Rightarrow> (nat \<times> string) list" where
  "match_m s = alt2 1 0 2 s @ alt2 0 1 9 s @ alt1 s"

definition match_d :: "string \<Rightarrow> (nat \<times> string) list" where
  "match_d s = alt2 3 0 1 s @ alt2 1 0 9 s @ alt2 2 0 9 s @ alt2 0 1 9 s @ alt1 s @ alt_space s"

definition midnight :: "nat \<Rightarrow> nat \<Rightarrow> nat \<Rightarrow> datetime" where
  "midnight y m d = \<lparr>year = y, month = m, day = d, hour = 0, minute = 0, second = 0,
                     microsecond = 0, utcoffset = None\<rparr>"

definition strptime_Ymd :: "string \<Rightarrow> error + datetime" where
  "strptime_Ymd s =
     (case concat (map (\<lambda>(y, r1). concat (map (\<lambda>(m, r2). map (\<lambda>(d, r3). (y, m, d, r3))
                     (match_d r2)) (match_m r1))) (match_Y s)) of
        [] \<Rightarrow> Inl ValueError
      | (y, m, d, r3) # _ \<Rightarrow>
          if r3 \<noteq> [] then Inl ValueError
          else if valid_date y m d then Inr (midnight y m d)
          else Inl ValueError)"

definition month_name :: "nat \<Rightarrow> string" where
  \<comment> \<open>\<open>%B\<close> in the C locale\<close>
  "month_name m =
     (if m = 1 then ''January'' else if m = 2 then ''February'' else if m = 3 then ''March''
      else if m = 4 then ''April'' else if m = 5 then ''May'' else if m = 6 then ''June''
      else if m = 7 then ''July'' else if m = 8 then ''August''
      else if m = 9 then ''September'' else if m = 10 then ''October''
      else if m = 11 then ''November'' else ''December'')"

definition strftime_dB :: "datetime \<Rightarrow> string" where
  \<comment> \<open>\<open>dt.strftime('%d %B')\<close>\<close>
  "strftime_dB dt = zpad 2 (day dt) @ '' '' @ month_name (month dt)"

definition isoformat :: "datetime \<Rightarrow> string" where
  \<comment> \<open>\<open>dt.isoformat()\<close>\<close>
  "isoformat dt =
     zpad 4 (year dt) @ ''-'' @ zpad 2 (month dt) @ ''-'' @ zpad 2 (day dt) @ ''T''
     @ zpad 2 (hour dt) @ '':'' @ zpad 2 (minute dt) @ '':'' @ zpad 2 (second dt)
     @ (if microsecond dt \<noteq> 0 then ''.'' @ zpad 6 (microsecond dt) else [])
     @ (case utcoffset dt of
          None \<Rightarrow> []
        | Some off \<Rightarrow>
            (if off < 0 then ''-'' else ''+'')
            @ zpad 2 (nat \<bar>off\<bar> div 60) @ '':'' @ zpad 2 (nat \<bar>off\<bar> mod 60))"

text \<open>
  \<open>re.search(r'DT(\d{8})', filename)\<close>: the leftmost position at which \<open>DT\<close> and eight
  digits follow; the result is group 1, the eight digits, or \<open>None\<close>.
\<close>

fun match_DT :: "string \<Rightarrow> string option" where
  "match_DT (a # b # r) =
     (if a = CHR ''D'' \<and> b = CHR ''T'' \<and> 8 \<le> length r \<and> list_all is_digit (take 8 r)
      then Some (take 8 r) else None)"
| "match_DT _ = None"

fun re_search_DT :: "string \<Rightarrow> string option" where
  "re_search_DT [] = None"
| "re_search_DT (c # cs) =
     (case match_DT (c # cs) of Some ds \<Rightarrow> Some ds | None \<Rightarrow> re_search_DT cs)"

subsection \<open>Page count\<close>

text \<open>
  \<^verbatim>\<open>total_pages = (len(images) + images_per_page - 1) // images_per_page\<close>
  Python's \<open>//\<close> on integers rounds towards minus infinity, as \<open>div\<close> on
  \<^typ>\<open>int\<close> does, and raises \<open>ZeroDivisionError\<close> for a zero divisor.
\<close>

definition floordiv :: "int \<Rightarrow> int \<Rightarrow> error + int" where
  "floordiv a b = (if b = 0 then Inl ZeroDivisionError else Inr (a div b))"

definition total_pages_of :: "nat \<Rightarrow> int \<Rightarrow> error + int" where
  "total_pages_of n images_per_page = floordiv (int n + images_per_page - 1) images_per_page"

section \<open>Listing the bucket\<close>

text \<open>
  A blob of the storage client: its metadata after \<open>reload()\<close>, and the two calls
  \<open>get_image_list\<close> makes on it. \<open>reload\<close> is \<open>None\<close> when the call returns and the
  exception when it raises; \<open>generate_signed_url\<close> takes the expiration (an instant, in
  microseconds) and the HTTP method.
\<close>

record blob =
  blob_name :: string
  blob_size :: "int option"
  time_created :: "datetime option"
  blob_updated :: "datetime option"
  blob_content_type :: "string option"
  blob_md5_hash :: "string option"
  reload :: "error option"
  generate_signed_url :: "int \<Rightarrow> string \<Rightarrow> error + string"

text \<open>
  The object of class \<open>GCSImageGallery\<close>. The bucket handle is modelled by the objects
  the bucket holds, in the order the service lists them.
\<close>

record gallery =
  project_id :: string
  bucket_name :: string
  folder_path :: string
  bucket :: "blob list"

definition init_gallery :: "string \<Rightarrow> string \<Rightarrow> string \<Rightarrow> blob list \<Rightarrow> gallery" where
  \<comment> \<open>\<open>__init__\<close>\<close>
  "init_gallery project bucket_nm folder objs =
     \<lparr>project_id = project, bucket_name = bucket_nm,
      folder_path = (if folder \<noteq> [] then rstrip (CHR ''/'') folder @ ''/'' else []),
      bucket = objs\<rparr>"

definition list_blobs :: "gallery \<Rightarrow> string \<Rightarrow> blob list" where
  \<comment> \<open>\<open>self.bucket.list_blobs(prefix=...)\<close>: the objects whose name starts with the prefix\<close>
  "list_blobs g pre = filter (\<lambda>b. startswith (blob_name b) pre) (bucket g)"

text \<open>
  The dictionary \<open>image_info\<close>. The values that \<open>generate_html_gallery\<close> tests for
  truth before use are optional here; \<open>size\<close> is \<open>blob.size\<close>, which the client types
  as an optional integer.
\<close>

record image_info =
  name :: string
  filename :: "string option"
  public_url :: "string option"
  size_bytes :: "int option"
  created :: "datetime option"
  updated :: "datetime option"
  content_type :: "string option"
  md5_hash :: "string option"
  date_str :: "string option"
  date_display :: "string option"

definition image_extensions :: "string list" where
  "image_extensions = [''.jpg'', ''.jpeg'', ''.png'', ''.gif'', ''.bmp'', ''.webp'', ''.tiff'', ''.svg'']"

definition is_image_file :: "string \<Rightarrow> bool" where
  \<comment> \<open>\<open>any(blob.name.lower().endswith(ext) for ext in image_extensions)\<close>\<close>
  "is_image_file nm = list_ex (\<lambda>ext. endswith (lower nm) ext) image_extensions"

definition date_fields :: "string \<Rightarrow> string option \<times> string" where
  \<comment> \<open>\<open>(date_str, date_display)\<close> for a file name; the bare \<open>except\<close> catches the
      \<open>ValueError\<close> of \<open>strptime\<close> (\<open>strftime\<close> raises nothing for a date that
      \<open>strptime\<close> returned)\<close>
  "date_fields fname =
     (case re_search_DT fname of
        Some ds \<Rightarrow>
          (case strptime_Ymd ds of
             Inr date_obj \<Rightarrow> (Some ds, strftime_dB date_obj)
           | Inl e \<Rightarrow> (Some ds, ds))
      | None \<Rightarrow> (None, ''Unknown Date''))"

definition timedelta_hours :: "int \<Rightarrow> int" where
  \<comment> \<open>\<open>timedelta(hours=h)\<close>, in microseconds\<close>
  "timedelta_hours h = h * 3600000000"

definition fallback_url :: "gallery \<Rightarrow> blob \<Rightarrow> string" where
  "fallback_url g b = ''https://storage.googleapis.com/'' @ bucket_name g @ ''/'' @ blob_name b"

definition signed_or_public_url :: "gallery \<Rightarrow> int \<Rightarrow> blob \<Rightarrow> string" where
  \<comment> \<open>the \<open>try\<close>/\<open>except Exception\<close> around \<open>blob.generate_signed_url\<close>; \<open>now\<close> is
      \<open>datetime.now()\<close>\<close>
  "signed_or_public_url g now b =
     (case generate_signed_url b (now + timedelta_hours 1) ''GET'' of
        Inr signed_url \<Rightarrow> signed_url
      | Inl e \<Rightarrow> fallback_url g b)"

definition make_image_info :: "gallery \<Rightarrow> int \<Rightarrow> blob \<Rightarrow> image_info" where
  "make_image_info g now b =
     (let fname = basename (blob_name b);
          (dstr, ddisplay) = date_fields fname;
          signed_url = signed_or_public_url g now b
      in \<lparr>name = blob_name b, filename = Some fname, public_url = Some signed_url,
          size_bytes = blob_size b, created = time_created b, updated = blob_updated b,
          content_type = blob_content_type b, md5_hash = blob_md5_hash b,
          date_str = dstr, date_display = Some ddisplay\<rparr>)"

text \<open>
  The loop over the listing. \<open>clock k\<close> is what \<open>datetime.now()\<close> returns while the
  image with \<open>count = k\<close> is processed (\<open>cnt\<close> below). The messages the loop prints are not modelled. An
  exception of \<open>reload()\<close> is not caught in \<open>get_image_list\<close> and ends it.
\<close>

fun process_blobs ::
  "gallery \<Rightarrow> (nat \<Rightarrow> int) \<Rightarrow> blob list \<Rightarrow> image_info list \<Rightarrow> nat \<Rightarrow> error + image_info list" where
  "process_blobs g clock [] images cnt = Inr images"
| "process_blobs g clock (b # blobs) images cnt =
     (if is_image_file (blob_name b) then
        (case reload b of
           Some e \<Rightarrow> Inl e
         | None \<Rightarrow> process_blobs g clock blobs
                     (images @ [make_image_info g (clock cnt) b]) (cnt + 1))
      else process_blobs g clock blobs images cnt)"

definition get_image_list :: "gallery \<Rightarrow> (nat \<Rightarrow> int) \<Rightarrow> error + image_info list" where
  "get_image_list g clock =
     (case process_blobs g clock (list_blobs g (folder_path g)) [] 0 of
        Inl e \<Rightarrow> Inl e
      | Inr images \<Rightarrow> Inr (sort_key filename images))"

section \<open>Rendering the page\<close>

subsection \<open>\<open>json.dumps\<close>\<close>

text \<open>
  The values \<open>generate_html_gallery\<close> hands to \<open>json.dumps\<close>: a list of dictionaries
  whose values are strings, integers or \<open>None\<close>. A dictionary keeps the order in which
  its keys were written. \<open>json.dumps\<close> is called with its defaults: separators
  \<open>', '\<close> and \<open>': '\<close>, and \<open>ensure_ascii\<close>, under which a string keeps the characters
  from space to \<open>~\<close> other than the double quote and the backslash, and every other
  character is written as an escape.
\<close>

datatype jval = JNull | JInt int | JStr string

definition dquote :: char where
  "dquote = CHR 0x22"

definition backslash :: char where
  "backslash = CHR 0x5C"

definition hex_digit :: "nat \<Rightarrow> char" where
  "hex_digit d = (if d < 10 then char_of (48 + d) else char_of (87 + d))"

definition json_escape_char :: "char \<Rightarrow> string" where
  "json_escape_char c =
     (let n = code_point c
      in if c = dquote then [backslash, dquote]
         else if c = backslash then [backslash, backslash]
         else if n = 10 then [backslash, CHR ''n'']
         else if n = 13 then [backslash, CHR ''r'']
         else if n = 9 then [backslash, CHR ''t'']
         else if n = 8 then [backslash, CHR ''b'']
         else if n = 12 then [backslash, CHR ''f'']
         else if 32 \<le> n \<and> n \<le> 126 then [c]
         else [backslash, CHR ''u'', CHR ''0'', CHR ''0'', hex_digit (n div 16), hex_digit (n mod 16)])"

definition json_dumps_str :: "string \<Rightarrow> string" where
  "json_dumps_str s = [dquote] @ concat (map json_escape_char s) @ [dquote]"

fun json_dumps_val :: "jval \<Rightarrow> string" where
  "json_dumps_val JNull = ''null''"
| "json_dumps_val (JInt i) = str_int i"
| "json_dumps_val (JStr s) = json_dumps_str s"

definition json_dumps_dict :: "(string \<times> jval) list \<Rightarrow> string" where
  "json_dumps_dict d =
     ''{'' @ join '', '' (map (\<lambda>(k, v). json_dumps_str k @ '': '' @ json_dumps_val v) d) @ ''}''"

definition json_dumps :: "(string \<times> jval) list list \<Rightarrow> string" where
  "json_dumps ds = ''['' @ join '', '' (map json_dumps_dict ds) @ '']''"

subsection \<open>\<open>generate_html_gallery\<close>\<close>

definition escape_quotes :: "string \<Rightarrow> string" where
  \<comment> \<open>\<open>s.replace('\\', '\\\\').replace('"', '\\"')\<close>\<close>
  "escape_quotes s =
     str_replace dquote [backslash, dquote] (str_replace backslash [backslash, backslash] s)"

definition or_else :: "string option \<Rightarrow> string \<Rightarrow> string" where
  \<comment> \<open>\<open>v or d\<close> for an optional string \<open>v\<close>\<close>
  "or_else v d = (if truthy v then (case v of Some s \<Rightarrow> s | None \<Rightarrow> d) else d)"

definition js_entry :: "image_info \<Rightarrow> (string \<times> jval) list" where
  \<comment> \<open>the dictionary appended to \<open>images_for_js\<close> for one image\<close>
  "js_entry img =
     (let url = (if truthy (public_url img) then map_option escape_quotes (public_url img)
                 else public_url img)
      in [(''filename'', JStr (if truthy (filename img)
                              then (case filename img of Some s \<Rightarrow> escape_quotes s | None \<Rightarrow> [])
                              else [])),
          (''public_url'', JStr (or_else url [])),
          (''size'', (case size_bytes img of Some n \<Rightarrow> JInt n | None \<Rightarrow> JNull)),
          (''created'', (case created img of Some dt \<Rightarrow> JStr (isoformat dt) | None \<Rightarrow> JNull)),
          (''content_type'', JStr (or_else (content_type img) ''image/unknown'')),
          (''date_str'', JStr (or_else (date_str img) [])),
          (''date_display'', JStr (or_else (date_display img) ''Unknown Date''))])"

definition images_for_js :: "image_info list \<Rightarrow> (string \<times> jval) list list" where
  "images_for_js images = map js_entry images"

text \<open>
  The arguments of \<open>template.render\<close>, and the rendering. The template has nine
  placeholders; \<open>html_template k\<close> is its fixed text before placeholder \<open>k\<close>
  (\<open>k = 0..8\<close>) and \<open>html_template 9\<close> the text after the last one. The template is
  rendered without autoescaping: a string is inserted as it is, an integer as \<open>str\<close>
  writes it. The placeholders, in order:
  \<^verbatim>\<open><title>{{ title }}</title>\<close>,
  \<^verbatim>\<open><h1>{{ title }}</h1>\<close>,
  \<^verbatim>\<open><p>{{ total_images }} images sorted by name ({{ images_per_page }} per page for fast loading)</p>\<close>,
  \<^verbatim>\<open>Showing {{ images_per_page }} of {{ total_images }}\<close>,
  \<^verbatim>\<open><span id="totalPages">{{ total_pages }}</span>\<close>,
  \<^verbatim>\<open>const imageData = {{ images_json|safe }};\<close>,
  \<^verbatim>\<open>const imagesPerPage = {{ images_per_page }};\<close>
\<close>

record template_context =
  title :: string
  total_images :: nat
  images_per_page :: int
  total_pages :: int
  images_json :: string

definition render :: "(nat \<Rightarrow> string) \<Rightarrow> template_context \<Rightarrow> string" where
  "render html_template c =
     html_template 0 @ title c
     @ html_template 1 @ title c
     @ html_template 2 @ str_int (int (total_images c))
     @ html_template 3 @ str_int (images_per_page c)
     @ html_template 4 @ str_int (images_per_page c)
     @ html_template 5 @ str_int (int (total_images c))
     @ html_template 6 @ str_int (total_pages c)
     @ html_template 7 @ images_json c
     @ html_template 8 @ str_int (images_per_page c)
     @ html_template 9"

definition render_args :: "image_info list \<Rightarrow> int \<Rightarrow> string \<Rightarrow> error + template_context" where
  \<comment> \<open>the page count, then the keyword arguments of \<open>template.render\<close>\<close>
  "render_args images per_page ttl =
     (case total_pages_of (length images) per_page of
        Inl e \<Rightarrow> Inl e
      | Inr pages \<Rightarrow>
          Inr \<lparr>title = ttl, total_images = length images, images_per_page = per_page,
               total_pages = pages, images_json = json_dumps (images_for_js images)\<rparr>)"

definition generate_html_gallery ::
  "(nat \<Rightarrow> string) \<Rightarrow> image_info list \<Rightarrow> string \<Rightarrow> int \<Rightarrow> string \<Rightarrow> error + string \<times> string" where
  \<comment> \<open>the result is the file written: its name and its content\<close>
  "generate_html_gallery html_template images output_file per_page ttl =
     (case render_args images per_page ttl of
        Inl e \<Rightarrow> Inl e
      | Inr c \<Rightarrow> Inr (output_file, render html_template c))"

subsection \<open>\<open>main\<close>\<close>




section \<open>Reading a JSON string literal\<close>

text \<open>
  The reference against which the embedding of strings is judged; it is not part of the
  program. \<open>json_loads_str\<close> reads one JSON string literal as RFC 8259 (section 7)
  defines it, which is also how the script engine of the browser reads the literal in
  \<open>const imageData = ...\<close>: the text between the quotes, with \<open>\"\<close>, \<open>\\\<close>, \<open>\/\<close>,
  \<open>\b\<close>, \<open>\f\<close>, \<open>\n\<close>, \<open>\r\<close>, \<open>\t\<close> and \<open>\uXXXX\<close> replaced by the character they
  name. The result is \<open>None\<close> when the text is not one well-formed literal (or names a
  character beyond code point 255, which \<^typ>\<open>string\<close> does not hold).
\<close>

definition hex_val :: "char \<Rightarrow> nat option" where
  "hex_val c =
     (let n = code_point c
      in if 48 \<le> n \<and> n \<le> 57 then Some (n - 48)
         else if 97 \<le> n \<and> n \<le> 102 then Some (n - 87)
         else if 65 \<le> n \<and> n \<le> 70 then Some (n - 55)
         else None)"

definition simple_escape :: "char \<Rightarrow> char option" where
  "simple_escape e =
     (if e = dquote then Some dquote
      else if e = backslash then Some backslash
      else if e = CHR ''/'' then Some (CHR ''/'')
      else if e = CHR ''b'' then Some (char_of (8::nat))
      else if e = CHR ''f'' then Some (char_of (12::nat))
      else if e = CHR ''n'' then Some (char_of (10::nat))
      else if e = CHR ''r'' then Some (char_of (13::nat))
      else if e = CHR ''t'' then Some (char_of (9::nat))
      else None)"

definition hex4 :: "char \<Rightarrow> char \<Rightarrow> char \<Rightarrow> char \<Rightarrow> nat option" where
  "hex4 a b c d =
     (case (hex_val a, hex_val b, hex_val c, hex_val d) of
        (Some w, Some x, Some y, Some z) \<Rightarrow> Some (((w * 16 + x) * 16 + y) * 16 + z)
      | _ \<Rightarrow> None)"

fun json_unescape :: "string \<Rightarrow> string option" where
  "json_unescape [] = None"
| "json_unescape [c] = (if c = dquote then Some [] else None)"
| "json_unescape (c # e # r) =
     (if c = dquote then None
      else if c = backslash then
        (if e = CHR ''u'' then
           (case r of
              h1 # h2 # h3 # h4 # r' \<Rightarrow>
                (case hex4 h1 h2 h3 h4 of
                   Some n \<Rightarrow> (if n < 256 then map_option (Cons (char_of n)) (json_unescape r')
                              else None)
                 | None \<Rightarrow> None)
            | _ \<Rightarrow> None)
         else (case simple_escape e of
                 Some ch \<Rightarrow> map_option (Cons ch) (json_unescape r)
               | None \<Rightarrow> None))
      else if code_point c < 32 then None
      else map_option (Cons c) (json_unescape (e # r)))"

definition json_loads_str :: "string \<Rightarrow> string option" where
  "json_loads_str s =
     (case s of [] \<Rightarrow> None | q # r \<Rightarrow> if q = dquote then json_unescape r else None)"

section \<open>Auxiliary notions for the statements\<close>

definition listed_images :: "gallery \<Rightarrow> blob list" where
  \<comment> \<open>the objects of the listing that pass the extension test, in listing order\<close>
  "listed_images g =
     filter (\<lambda>b. is_image_file (blob_name b)) (list_blobs g (folder_path g))"

fun collected :: "gallery \<Rightarrow> (nat \<Rightarrow> int) \<Rightarrow> nat \<Rightarrow> blob list \<Rightarrow> image_info list" where
  \<comment> \<open>the entries built for a list of blobs, the first of them at count \<open>k\<close>\<close>
  "collected g clock k [] = []"
| "collected g clock k (b # bs) = make_image_info g (clock k) b # collected g clock (Suc k) bs"

definition digits8 :: "string \<Rightarrow> bool" where
  \<comment> \<open>eight decimal digits\<close>
  "digits8 ds = (length ds = 8 \<and> list_all is_digit ds)"

definition DT_at :: "string \<Rightarrow> nat \<Rightarrow> string \<Rightarrow> bool" where
  \<comment> \<open>at position \<open>i\<close> of \<open>s\<close> stand \<open>DT\<close> and then the eight digits \<open>ds\<close>\<close>
  "DT_at s i ds = (take 2 (drop i s) = ''DT'' \<and> take 8 (drop (i + 2) s) = ds \<and> digits8 ds)"

definition year_of :: "string \<Rightarrow> nat" where
  "year_of ds = int_of_digits (take 4 ds)"

definition month_of :: "string \<Rightarrow> nat" where
  "month_of ds = int_of_digits (take 2 (drop 4 ds))"

definition day_of :: "string \<Rightarrow> nat" where
  "day_of ds = int_of_digits (drop 6 ds)"

definition calendar_date :: "string \<Rightarrow> bool" where
  \<comment> \<open>eight digits \<open>YYYYMMDD\<close> that name a day of the calendar\<close>
  "calendar_date ds = valid_date (year_of ds) (month_of ds) (day_of ds)"


section \<open>Sample inputs\<close>

definition sample_image :: "string \<Rightarrow> image_info" where
  "sample_image fname =
     \<lparr>name = ''photos/'' @ fname, filename = Some fname,
      public_url = Some (''https://cdn.test/'' @ fname), size_bytes = Some 2048,
      created = None, updated = None, content_type = Some ''image/png'', md5_hash = None,
      date_str = None, date_display = None\<rparr>"

definition sample_gallery :: "blob list \<Rightarrow> gallery" where
  "sample_gallery objs = init_gallery ''proj'' ''bkt'' ''photos'' objs"

definition sample_blob :: "string \<Rightarrow> bool \<Rightarrow> blob" where
  \<comment> \<open>a blob whose metadata loads; \<open>signs\<close> says whether its URL can be signed\<close>
  "sample_blob nm signs =
     \<lparr>blob_name = nm, blob_size = Some 2048, time_created = None, blob_updated = None,
      blob_content_type = Some ''image/jpeg'', blob_md5_hash = None, reload = None,
      generate_signed_url =
        (\<lambda>expiration method.
           if signs then Inr (''https://signed.test/'' @ nm @ ''?m='' @ method)
           else Inl (ApiError ''no private key''))\<rparr>"

definition sample_clock :: "nat \<Rightarrow> int" where
  "sample_clock k = 1762250000000000 + int k * 1000"

definition sample_listing :: gallery where
  \<comment> \<open>two images under the prefix (one of them cannot be signed), a text file under
      the prefix, and an image outside it\<close>
  "sample_listing =
     sample_gallery [sample_blob ''photos/b.jpg'' True, sample_blob ''photos/notes.txt'' True,
                     sample_blob ''other/c.jpg'' True, sample_blob ''photos/sub/A.PNG'' False]"



definition misdated_blob :: blob where
  "misdated_blob = sample_blob ''photos/DT20251340_cam.jpg'' True"

definition misdated_listing :: gallery where
  \<comment> \<open>one image, whose URL can be signed and whose name carries month 13, day 40\<close>
  "misdated_listing = sample_gallery [misdated_blob]"









definition blank_image :: image_info where
  \<comment> \<open>a dictionary whose values are all missing\<close>
  "blank_image =
     \<lparr>name = [], filename = None, public_url = None, size_bytes = None,
      created = None, updated = None, content_type = None, md5_hash = None,
      date_str = None, date_display = None\<rparr>"

definition quoted_image :: image_info where
  \<comment> \<open>an image whose file name holds a double quote: \<open>a"b\<close>\<close>
  "quoted_image = (sample_image (''a'' @ [dquote] @ ''b''))"

section \<open>Properties\<close>

lemma total_pages_of_ceiling:
  assumes "1 \<le> p"
  shows "total_pages_of n p = Inr \<lceil>real n / real_of_int p\<rceil>"
proof -
  have "(int n + p - 1) div p = \<lceil>real n / real_of_int p\<rceil>"
  proof (rule sym, rule ceiling_unique)
    let ?q = "(int n + p - 1) div p"
    have m: "(int n + p - 1) = ?q * p + (int n + p - 1) mod p" by simp
    have r0: "0 \<le> (int n + p - 1) mod p" and r1: "(int n + p - 1) mod p < p"
      using assms by simp_all
    have "int n \<le> ?q * p" using m r1 by linarith
    then have "real_of_int (int n) \<le> real_of_int (?q * p)" by linarith
    then show "real n / real_of_int p \<le> real_of_int ?q"
      using assms by (simp add: pos_divide_le_eq)
    have "?q * p - p < int n" using m r0 by linarith
    then have "(?q - 1) * p < int n" by (simp add: algebra_simps)
    then have "real_of_int ((?q - 1) * p) < real_of_int (int n)" by linarith
    then show "real_of_int ?q - 1 < real n / real_of_int p"
      using assms by (simp add: pos_less_divide_eq)
  qed
  with assms show ?thesis by (simp add: total_pages_of_def floordiv_def)
qed

subsection \<open>Page count\<close>

text \<open>
  C1. For every list of images and every \<open>images_per_page \<ge> 1\<close>,
  \<open>generate_html_gallery\<close> returns, and the page count it renders is
  \<open>(len(images) + images_per_page - 1) // images_per_page\<close>, which is the ceiling of
  \<open>len(images) / images_per_page\<close>: 0 for the empty list and \<open>k\<close> for a list of exactly
  \<open>k * images_per_page\<close> images.
\<close>

theorem generate_html_gallery_page_count:
  assumes "1 \<le> per_page"
  shows "\<exists>c. render_args images per_page ttl = Inr c
           \<and> generate_html_gallery tpl images out per_page ttl = Inr (out, render tpl c)
           \<and> total_pages c = (int (length images) + per_page - 1) div per_page
           \<and> total_pages c = \<lceil>real (length images) / real_of_int per_page\<rceil>
           \<and> (images = [] \<longrightarrow> total_pages c = 0)
           \<and> (\<forall>k. int (length images) = k * per_page \<longrightarrow> total_pages c = k)"
proof -
  let ?q = "(int (length images) + per_page - 1) div per_page"
  have tp: "total_pages_of (length images) per_page = Inr ?q"
    using assms by (simp add: total_pages_of_def floordiv_def)
  have ceil: "?q = \<lceil>real (length images) / real_of_int per_page\<rceil>"
    using total_pages_of_ceiling [OF assms, of "length images"] tp by simp
  have empty: "images = [] \<longrightarrow> ?q = 0"
    using assms by (simp add: div_pos_pos_trivial)
  have mult: "\<forall>k. int (length images) = k * per_page \<longrightarrow> ?q = k"
  proof (intro allI impI)
    fix k assume k: "int (length images) = k * per_page"
    have "(k * per_page + (per_page - 1)) div per_page = k + (per_page - 1) div per_page"
      using assms by (simp add: div_mult_self3)
    moreover have "(per_page - 1) div per_page = 0"
      using assms by (simp add: div_pos_pos_trivial)
    ultimately show "?q = k" using k by (simp add: algebra_simps)
  qed
  define c where "c = \<lparr>title = ttl, total_images = length images, images_per_page = per_page,
      total_pages = ?q, images_json = json_dumps (images_for_js images)\<rparr>"
  have ra: "render_args images per_page ttl = Inr c"
    using tp by (simp add: render_args_def c_def)
  have gen: "generate_html_gallery tpl images out per_page ttl = Inr (out, render tpl c)"
    using ra by (simp add: generate_html_gallery_def)
  have q: "total_pages c = ?q" by (simp add: c_def)
  show ?thesis
    using ra gen empty mult ceil unfolding q [symmetric] by blast
qed

text \<open>Three images at two per page make two pages.\<close>

theorem generate_html_gallery_page_count_witness:
  "(1::int) \<le> 2
   \<and> (\<exists>c. render_args [sample_image ''a.png'', sample_image ''b.png'', sample_image ''c.png''] 2 ''T'' = Inr c
          \<and> total_pages c = 2)"
  using generate_html_gallery_page_count [of 2 "[sample_image ''a.png'', sample_image ''b.png'', sample_image ''c.png'']" "''T''" "\<lambda>k. []" "''g.html''"]
  by auto

subsection \<open>The listing loop\<close>

lemma endswith_iff: "endswith s suf \<longleftrightarrow> (\<exists>pre. s = pre @ suf)"
proof
  assume "endswith s suf"
  then have "s = take (length s - length suf) s @ suf"
    by (metis append_take_drop_id endswith_def)
  then show "\<exists>pre. s = pre @ suf" ..
next
  assume "\<exists>pre. s = pre @ suf"
  then show "endswith s suf" by (auto simp: endswith_def)
qed

lemma is_image_file_iff:
  "is_image_file nm \<longleftrightarrow> (\<exists>ext \<in> set image_extensions. \<exists>pre. lower nm = pre @ ext)"
  by (simp add: is_image_file_def list_ex_iff endswith_iff)

lemma process_blobs_ok:
  "\<forall>b \<in> set bs. is_image_file (blob_name b) \<longrightarrow> reload b = None \<Longrightarrow>
   process_blobs g clock bs acc k =
     Inr (acc @ collected g clock k (filter (\<lambda>b. is_image_file (blob_name b)) bs))"
  by (induction bs arbitrary: acc k) auto

lemma process_blobs_fail:
  "\<exists>b \<in> set bs. is_image_file (blob_name b) \<and> reload b \<noteq> None \<Longrightarrow>
   \<exists>e. process_blobs g clock bs acc k = Inl e"
proof (induction bs arbitrary: acc k)
  case Nil
  then show ?case by simp
next
  case (Cons b bs)
  show ?case
  proof (cases "is_image_file (blob_name b) \<and> reload b \<noteq> None")
    case True
    then show ?thesis by auto
  next
    case False
    with Cons.prems have "\<exists>b \<in> set bs. is_image_file (blob_name b) \<and> reload b \<noteq> None"
      by auto
    from Cons.IH [OF this] show ?thesis by (auto split: option.splits)
  qed
qed

lemma get_image_list_Inr:
  assumes "get_image_list g clock = Inr images"
  shows "(\<forall>b \<in> set (listed_images g). reload b = None)
         \<and> images = sort_key filename (collected g clock 0 (listed_images g))"
proof -
  let ?bs = "list_blobs g (folder_path g)"
  have ok: "\<forall>b \<in> set ?bs. is_image_file (blob_name b) \<longrightarrow> reload b = None"
  proof (rule ccontr)
    assume "\<not> ?thesis"
    then have "\<exists>b \<in> set ?bs. is_image_file (blob_name b) \<and> reload b \<noteq> None" by blast
    from process_blobs_fail [OF this, of g clock "[]" 0] assms show False
      by (auto simp: get_image_list_def)
  qed
  from process_blobs_ok [OF ok, of g clock "[]" 0] assms
  show ?thesis using ok by (auto simp: get_image_list_def listed_images_def)
qed

lemma get_image_list_ok:
  assumes "\<forall>b \<in> set (listed_images g). reload b = None"
  shows "get_image_list g clock = Inr (sort_key filename (collected g clock 0 (listed_images g)))"
proof -
  have "\<forall>b \<in> set (list_blobs g (folder_path g)). is_image_file (blob_name b) \<longrightarrow> reload b = None"
    using assms by (simp add: listed_images_def)
  from process_blobs_ok [OF this, of g clock "[]" 0]
  show ?thesis by (simp add: get_image_list_def listed_images_def)
qed

lemma collected_filename:
  "x \<in> set (collected g clock k bs) \<Longrightarrow> filename x = Some (basename (name x))"
  by (induction bs arbitrary: k) (auto simp: make_image_info_def Let_def split: prod.splits)

lemma collected_name: "map name (collected g clock k bs) = map blob_name bs"
  by (induction bs arbitrary: k) (auto simp: make_image_info_def Let_def split: prod.splits)

lemma sorted_map_Some:
  "sorted (map f xs) \<Longrightarrow> \<forall>x \<in> set xs. f x = Some (h x) \<Longrightarrow> sorted (map h xs)"
  by (induction xs) (auto)

lemma sample_listing_reloads: "\<forall>b \<in> set (listed_images sample_listing). reload b = None"
  unfolding sample_listing_def by code_simp

subsection \<open>Order and content of the listing\<close>

text \<open>
  C2. The list \<open>get_image_list\<close> returns is sorted in ascending lexicographic order of
  the \<open>filename\<close> field, which is the basename of the object name, and is a permutation
  of the entries collected from the listing.
\<close>

theorem get_image_list_sorted_permutation:
  assumes "get_image_list g clock = Inr images"
  shows "sorted (map filename images)
         \<and> (\<forall>x \<in> set images. filename x = Some (basename (name x)))
         \<and> sorted (map (\<lambda>x. basename (name x)) images)
         \<and> mset images = mset (collected g clock 0 (listed_images g))"
proof -
  from get_image_list_Inr [OF assms]
  have im: "images = sort_key filename (collected g clock 0 (listed_images g))" by simp
  have s: "sorted (map filename images)" unfolding im by (rule sorted_sort_key)
  have f: "\<forall>x \<in> set images. filename x = Some (basename (name x))"
    unfolding im by (simp add: collected_filename)
  have m: "mset images = mset (collected g clock 0 (listed_images g))"
    unfolding im by simp
  from s f have "sorted (map (\<lambda>x. basename (name x)) images)" by (rule sorted_map_Some)
  with s f m show ?thesis by blast
qed

text \<open>
  The sample listing holds \<open>photos/b.jpg\<close> before \<open>photos/sub/A.PNG\<close>; the result has
  \<open>A.PNG\<close> first.
\<close>

theorem get_image_list_sorted_permutation_witness:
  "\<exists>images. get_image_list sample_listing sample_clock = Inr images
     \<and> map filename images = [Some ''A.PNG'', Some ''b.jpg'']
     \<and> sorted (map filename images)
     \<and> sorted (map (\<lambda>x. basename (name x)) images)
     \<and> mset images = mset (collected sample_listing sample_clock 0 (listed_images sample_listing))"
proof -
  let ?images = "sort_key filename (collected sample_listing sample_clock 0 (listed_images sample_listing))"
  have r: "get_image_list sample_listing sample_clock = Inr ?images"
    using sample_listing_reloads by (rule get_image_list_ok)
  have f: "map filename ?images = [Some ''A.PNG'', Some ''b.jpg'']"
    unfolding sample_listing_def by code_simp
  note t = get_image_list_sorted_permutation [OF r]
  from t have s1: "sorted (map filename ?images)" by (rule conjunct1)
  from t have s2: "sorted (map (\<lambda>x. basename (name x)) ?images)" by blast
  from t have m: "mset ?images = mset (collected sample_listing sample_clock 0 (listed_images sample_listing))"
    by blast
  show ?thesis using r f s1 s2 m by (intro exI [of _ ?images] conjI)
qed

text \<open>
  C5. \<open>get_image_list\<close> returns only image objects: an object of the listing appears in
  the result if and only if its name, in lower case, ends with one of \<open>.jpg\<close>, \<open>.jpeg\<close>,
  \<open>.png\<close>, \<open>.gif\<close>, \<open>.bmp\<close>, \<open>.webp\<close>, \<open>.tiff\<close>, \<open>.svg\<close>; every entry of the result
  comes from the listing.
\<close>

theorem get_image_list_only_images:
  assumes "get_image_list g clock = Inr images"
  shows "mset (map name images) = mset (map blob_name (listed_images g))
         \<and> (\<forall>b \<in> set (list_blobs g (folder_path g)).
               (\<exists>x \<in> set images. name x = blob_name b) \<longleftrightarrow>
               (\<exists>ext \<in> set [''.jpg'', ''.jpeg'', ''.png'', ''.gif'', ''.bmp'', ''.webp'', ''.tiff'', ''.svg''].
                  \<exists>pre. lower (blob_name b) = pre @ ext))
         \<and> (\<forall>x \<in> set images. \<exists>b \<in> set (list_blobs g (folder_path g)). name x = blob_name b)"
proof -
  let ?L = "list_blobs g (folder_path g)"
  from get_image_list_Inr [OF assms]
  have im: "images = sort_key filename (collected g clock 0 (listed_images g))" by simp
  have "mset (map name images) = image_mset name (mset (collected g clock 0 (listed_images g)))"
    unfolding im by simp
  also have "\<dots> = mset (map name (collected g clock 0 (listed_images g)))" by simp
  finally have m: "mset (map name images) = mset (map blob_name (listed_images g))"
    by (simp only: collected_name)
  then have "set (map name images) = set (map blob_name (listed_images g))"
    by (metis set_mset_mset)
  then have st: "name ` set images = blob_name ` {b \<in> set ?L. is_image_file (blob_name b)}"
    by (simp add: listed_images_def)
  have a: "\<forall>b \<in> set ?L. (\<exists>x \<in> set images. name x = blob_name b) \<longleftrightarrow> is_image_file (blob_name b)"
  proof
    fix b assume b: "b \<in> set ?L"
    have "(\<exists>x \<in> set images. name x = blob_name b) \<longleftrightarrow> blob_name b \<in> name ` set images"
      by (metis (no_types, lifting) imageE imageI)
    also have "\<dots> \<longleftrightarrow> is_image_file (blob_name b)"
      unfolding st using b by auto
    finally show "(\<exists>x \<in> set images. name x = blob_name b) \<longleftrightarrow> is_image_file (blob_name b)" .
  qed
  have c: "\<forall>x \<in> set images. \<exists>b \<in> set ?L. name x = blob_name b"
  proof
    fix x assume "x \<in> set images"
    then have "name x \<in> blob_name ` {b \<in> set ?L. is_image_file (blob_name b)}"
      using st by blast
    then show "\<exists>b \<in> set ?L. name x = blob_name b" by auto
  qed
  from a have a': "\<forall>b \<in> set ?L. (\<exists>x \<in> set images. name x = blob_name b) \<longleftrightarrow>
               (\<exists>ext \<in> set [''.jpg'', ''.jpeg'', ''.png'', ''.gif'', ''.bmp'', ''.webp'', ''.tiff'', ''.svg''].
                  \<exists>pre. lower (blob_name b) = pre @ ext)"
    unfolding is_image_file_iff image_extensions_def .
  from m a' c show ?thesis by blast
qed

text \<open>
  Of the three objects under \<open>photos/\<close> in the sample listing, the text file is left
  out.
\<close>

theorem get_image_list_only_images_witness:
  "\<exists>images. get_image_list sample_listing sample_clock = Inr images
     \<and> map blob_name (list_blobs sample_listing (folder_path sample_listing))
         = [''photos/b.jpg'', ''photos/notes.txt'', ''photos/sub/A.PNG'']
     \<and> map name images = [''photos/sub/A.PNG'', ''photos/b.jpg'']
     \<and> mset (map name images) = mset (map blob_name (listed_images sample_listing))"
proof -
  let ?images = "sort_key filename (collected sample_listing sample_clock 0 (listed_images sample_listing))"
  have r: "get_image_list sample_listing sample_clock = Inr ?images"
    using sample_listing_reloads by (rule get_image_list_ok)
  have l: "map blob_name (list_blobs sample_listing (folder_path sample_listing))
         = [''photos/b.jpg'', ''photos/notes.txt'', ''photos/sub/A.PNG'']"
    unfolding sample_listing_def by code_simp
  have f: "map name ?images = [''photos/sub/A.PNG'', ''photos/b.jpg'']"
    unfolding sample_listing_def by code_simp
  from get_image_list_only_images [OF r]
  have m: "mset (map name ?images) = mset (map blob_name (listed_images sample_listing))"
    by (rule conjunct1)
  show ?thesis using r l f m by (intro exI [of _ ?images] conjI)
qed

subsection \<open>Date parsing\<close>

lemma digit_val_le: "is_digit c \<Longrightarrow> digit_val c \<le> 9"
  by (auto simp: is_digit_def digit_val_def)

lemma digit_char_eq:
  assumes "is_digit a" "t \<le> 9"
  shows "(a = digit_char t) = (digit_val a = t)"
proof -
  have "(char_of (48 + t) = a) = (take_bit 8 (48 + t) = (of_char a :: nat))"
    by (rule char_of_eq_iff)
  moreover have "take_bit 8 (48 + t) = 48 + t"
    using assms(2) by (simp add: take_bit_eq_mod)
  ultimately show ?thesis
    using assms(1) by (auto simp: digit_char_def is_digit_def digit_val_def code_point_def)
qed

lemma in_range_digit:
  "is_digit b \<Longrightarrow> in_range b lo hi = (lo \<le> digit_val b \<and> digit_val b \<le> hi)"
  by (auto simp: in_range_def is_digit_def digit_val_def)

lemma alt2_digits:
  "is_digit a \<Longrightarrow> is_digit b \<Longrightarrow> t \<le> 9 \<Longrightarrow>
   alt2 t lo hi (a # b # r) =
     (if digit_val a = t \<and> lo \<le> digit_val b \<and> digit_val b \<le> hi
      then [(10 * t + digit_val b, r)] else [])"
  by (simp add: digit_char_eq in_range_digit)

lemma alt1_digit:
  "is_digit a \<Longrightarrow> alt1 (a # r) = (if 1 \<le> digit_val a then [(digit_val a, r)] else [])"
  using digit_val_le [of a] by (simp add: in_range_digit)

lemma alt_space_digit: "is_digit a \<Longrightarrow> alt_space (a # r) = []"
  by (cases r) (auto simp: is_digit_def code_point_def)

lemma match_d_two:
  assumes "is_digit g" "is_digit h"
  shows "match_d [g, h] =
     (if digit_val g = 3 \<and> digit_val h \<le> 1 then [(30 + digit_val h, [])] else [])
     @ (if digit_val g = 1 then [(10 + digit_val h, [])] else [])
     @ (if digit_val g = 2 then [(20 + digit_val h, [])] else [])
     @ (if digit_val g = 0 \<and> 1 \<le> digit_val h then [(digit_val h, [])] else [])
     @ (if 1 \<le> digit_val g then [(digit_val g, [h])] else [])"
  using assms digit_val_le [of h]
  by (simp add: match_d_def alt2_digits alt1_digit alt_space_digit
        del: alt2.simps alt1.simps alt_space.simps)

lemma match_d_ok:
  assumes "is_digit g" "is_digit h"
    and "1 \<le> 10 * digit_val g + digit_val h" "10 * digit_val g + digit_val h \<le> 31"
  shows "\<exists>rest. match_d [g, h] = (10 * digit_val g + digit_val h, []) # rest"
proof -
  have "digit_val g = 0 \<and> 1 \<le> digit_val h \<or> digit_val g = 1 \<or> digit_val g = 2
        \<or> digit_val g = 3 \<and> digit_val h \<le> 1"
    using assms(3,4) by arith
  then show ?thesis
    unfolding match_d_two [OF assms(1,2)] by auto
qed

lemma match_d_bad:
  assumes "is_digit g" "is_digit h"
    and "\<not> (1 \<le> 10 * digit_val g + digit_val h \<and> 10 * digit_val g + digit_val h \<le> 31)"
  shows "\<forall>(d, r) \<in> set (match_d [g, h]). r \<noteq> []"
  using assms(3) digit_val_le [OF assms(2)]
  unfolding match_d_two [OF assms(1,2)] by (auto split: if_splits)

lemma match_d_three:
  assumes "is_digit f" "is_digit g"
  shows "\<forall>(d, r) \<in> set (match_d [f, g, h]). r \<noteq> []"
  using assms
  by (auto simp: match_d_def alt2_digits alt1_digit alt_space_digit
        simp del: alt2.simps alt1.simps alt_space.simps split: if_splits)

lemma match_m_four:
  assumes "is_digit e" "is_digit f"
  shows "match_m [e, f, g, h] =
     (if digit_val e = 1 \<and> digit_val f \<le> 2 then [(10 + digit_val f, [g, h])] else [])
     @ (if digit_val e = 0 \<and> 1 \<le> digit_val f then [(digit_val f, [g, h])] else [])
     @ (if 1 \<le> digit_val e then [(digit_val e, [f, g, h])] else [])"
  using assms digit_val_le [of f]
  by (simp add: match_m_def alt2_digits alt1_digit del: alt2.simps alt1.simps)

lemma digits8_elems:
  assumes "digits8 ds"
  obtains a b c d e f g h where "ds = [a, b, c, d, e, f, g, h]"
    "is_digit a" "is_digit b" "is_digit c" "is_digit d"
    "is_digit e" "is_digit f" "is_digit g" "is_digit h"
proof -
  from assms have "length ds = 8" by (simp add: digits8_def)
  then obtain a b c d e f g h where ds: "ds = [a, b, c, d, e, f, g, h]"
    by (auto simp: numeral_eq_Suc length_Suc_conv)
  with assms that show thesis by (simp add: digits8_def)
qed

lemma days_in_month_le: "days_in_month y m \<le> 31"
  by (simp add: days_in_month_def)

lemma rest_nonempty:
  assumes "\<And>m r2 d r3. (m, r2) \<in> set ms \<Longrightarrow> (d, r3) \<in> set (md r2) \<Longrightarrow> r3 \<noteq> []"
    and "(y, m, d, r3) \<in> set (concat (map (\<lambda>(m, r2). map (\<lambda>(d, r3). (Y, m, d, r3)) (md r2)) ms))"
  shows "r3 \<noteq> []"
proof -
  from assms(2) obtain m' r2 where "(m', r2) \<in> set ms"
    and "(y, m, d, r3) \<in> set (map (\<lambda>(d, r3). (Y, m', d, r3)) (md r2))"
    by auto
  then have "(m', r2) \<in> set ms" and "(d, r3) \<in> set (md r2)" by auto
  then show ?thesis by (rule assms(1))
qed

lemma strptime_Ymd_digits8:
  assumes "digits8 ds"
  shows "strptime_Ymd ds =
     (if calendar_date ds then Inr (midnight (year_of ds) (month_of ds) (day_of ds))
      else Inl ValueError)"
proof (rule digits8_elems [OF assms])
  fix a b c d e f g h
  assume ds: "ds = [a, b, c, d, e, f, g, h]"
    and dg: "is_digit a" "is_digit b" "is_digit c" "is_digit d"
            "is_digit e" "is_digit f" "is_digit g" "is_digit h"
  define Y where "Y = year_of ds"
  define M where "M = 10 * digit_val e + digit_val f"
  define D where "D = 10 * digit_val g + digit_val h"
  have mo: "month_of ds = M" by (simp add: month_of_def ds int_of_digits_def M_def)
  have da: "day_of ds = D" by (simp add: day_of_def ds int_of_digits_def D_def)
  have my: "match_Y ds = [(Y, [e, f, g, h])]"
    using dg by (simp add: match_Y_def ds Y_def year_of_def)
  define L where "L = concat (map (\<lambda>(m, r2). map (\<lambda>(d, r3). (Y, m, d, r3)) (match_d r2))
                     (match_m [e, f, g, h]))"
  have st: "strptime_Ymd ds =
     (case L of [] \<Rightarrow> Inl ValueError
      | (y, m, d, r3) # _ \<Rightarrow>
          if r3 \<noteq> [] then Inl ValueError
          else if valid_date y m d then Inr (midnight y m d) else Inl ValueError)"
    unfolding strptime_Ymd_def my L_def by simp
  show ?thesis
  proof (cases "(1 \<le> M \<and> M \<le> 12) \<and> (1 \<le> D \<and> D \<le> 31)")
    case True
    then have "digit_val e = 1 \<and> digit_val f \<le> 2 \<or> digit_val e = 0 \<and> 1 \<le> digit_val f"
      unfolding M_def by arith
    then obtain rest where mm: "match_m [e, f, g, h] = (M, [g, h]) # rest"
      unfolding match_m_four [OF dg(5,6)] M_def by auto
    from True match_d_ok [OF dg(7,8)] obtain rest' where md: "match_d [g, h] = (D, []) # rest'"
      unfolding D_def by auto
    have "\<exists>tl. L = (Y, M, D, []) # tl" by (simp add: L_def mm md)
    then obtain tl where "L = (Y, M, D, []) # tl" ..
    then have "strptime_Ymd ds = (if valid_date Y M D then Inr (midnight Y M D) else Inl ValueError)"
      unfolding st by simp
    then show ?thesis by (simp add: calendar_date_def mo da Y_def)
  next
    case False
    have bad: "r3 \<noteq> []" if "(y, m, d, r3) \<in> set L" for y m d r3
    proof (cases "1 \<le> M \<and> M \<le> 12")
      case True
      with False have nd: "\<not> (1 \<le> 10 * digit_val g + digit_val h \<and> 10 * digit_val g + digit_val h \<le> 31)"
        by (simp add: D_def)
      have r2: "\<forall>(m, r2) \<in> set (match_m [e, f, g, h]). r2 = [g, h] \<or> r2 = [f, g, h]"
        unfolding match_m_four [OF dg(5,6)] by auto
      show ?thesis
      proof (rule rest_nonempty [OF _ that [unfolded L_def]])
        fix m r2 d r3
        assume "(m, r2) \<in> set (match_m [e, f, g, h])" and d: "(d, r3) \<in> set (match_d r2)"
        with r2 have "r2 = [g, h] \<or> r2 = [f, g, h]" by blast
        then show "r3 \<noteq> []"
        proof
          assume "r2 = [g, h]"
          with d match_d_bad [OF dg(7,8) nd] show ?thesis by blast
        next
          assume "r2 = [f, g, h]"
          with d match_d_three [OF dg(6,7), of h] show ?thesis by blast
        qed
      qed
    next
      case False
      then have "\<not> (digit_val e = 1 \<and> digit_val f \<le> 2) \<and> \<not> (digit_val e = 0 \<and> 1 \<le> digit_val f)"
        unfolding M_def using digit_val_le [OF dg(6)] by arith
      then have r2: "\<forall>(m, r2) \<in> set (match_m [e, f, g, h]). r2 = [f, g, h]"
        unfolding match_m_four [OF dg(5,6)] by auto
      show ?thesis
      proof (rule rest_nonempty [OF _ that [unfolded L_def]])
        fix m r2 d r3
        assume "(m, r2) \<in> set (match_m [e, f, g, h])" and d: "(d, r3) \<in> set (match_d r2)"
        with r2 have "r2 = [f, g, h]" by blast
        with d match_d_three [OF dg(6,7), of h] show "r3 \<noteq> []" by blast
      qed
    qed
    have "strptime_Ymd ds = Inl ValueError"
    proof (cases L)
      case Nil
      show ?thesis unfolding st Nil by simp
    next
      case (Cons x xs)
      obtain y m d r3 where x: "x = (y, m, d, r3)" by (cases x) auto
      with Cons have "(y, m, d, r3) \<in> set L" by simp
      then have "r3 \<noteq> []" by (rule bad)
      then show ?thesis unfolding st Cons x by simp
    qed
    moreover have "\<not> calendar_date ds"
      using False days_in_month_le [of "year_of ds" M]
      by (auto simp: calendar_date_def valid_date_def mo da)
    ultimately show ?thesis by simp
  qed
qed

lemma match_DT_iff: "match_DT s = Some ds \<longleftrightarrow> DT_at s 0 ds"
proof (cases s)
  case Nil
  then show ?thesis by (simp add: DT_at_def)
next
  case (Cons a r)
  show ?thesis
  proof (cases r)
    case Nil
    with Cons show ?thesis by (simp add: DT_at_def)
  next
    case (Cons b r')
    with \<open>s = a # r\<close> show ?thesis
      by (auto simp: DT_at_def digits8_def)
  qed
qed

lemma DT_at_Cons: "DT_at (c # cs) (Suc i) ds = DT_at cs i ds"
  by (simp add: DT_at_def)

lemma re_search_DT_Some:
  "re_search_DT s = Some ds \<longleftrightarrow>
   (\<exists>i. DT_at s i ds \<and> (\<forall>j < i. \<forall>ds'. \<not> DT_at s j ds'))"
proof (induction s)
  case Nil
  then show ?case by (simp add: DT_at_def digits8_def)
next
  case (Cons c cs)
  show ?case
  proof (cases "match_DT (c # cs)")
    case (Some ds0)
    then have at0: "DT_at (c # cs) 0 ds0" by (simp add: match_DT_iff)
    have "(\<exists>i. DT_at (c # cs) i ds \<and> (\<forall>j < i. \<forall>ds'. \<not> DT_at (c # cs) j ds')) \<longleftrightarrow> ds = ds0"
    proof
      assume "\<exists>i. DT_at (c # cs) i ds \<and> (\<forall>j < i. \<forall>ds'. \<not> DT_at (c # cs) j ds')"
      then obtain i where i: "DT_at (c # cs) i ds" "\<forall>j < i. \<forall>ds'. \<not> DT_at (c # cs) j ds'"
        by blast
      with at0 have "i = 0" by (cases i) auto
      with i(1) at0 show "ds = ds0" by (simp add: DT_at_def)
    next
      assume "ds = ds0"
      with at0 show "\<exists>i. DT_at (c # cs) i ds \<and> (\<forall>j < i. \<forall>ds'. \<not> DT_at (c # cs) j ds')"
        by (intro exI [of _ 0]) simp
    qed
    with Some show ?thesis by auto
  next
    case None
    then have no0: "\<And>ds'. \<not> DT_at (c # cs) 0 ds'"
      by (metis match_DT_iff option.distinct(1))
    have "(\<exists>i. DT_at (c # cs) i ds \<and> (\<forall>j < i. \<forall>ds'. \<not> DT_at (c # cs) j ds'))
          \<longleftrightarrow> (\<exists>i. DT_at cs i ds \<and> (\<forall>j < i. \<forall>ds'. \<not> DT_at cs j ds'))"
    proof
      assume "\<exists>i. DT_at (c # cs) i ds \<and> (\<forall>j < i. \<forall>ds'. \<not> DT_at (c # cs) j ds')"
      then obtain i where i: "DT_at (c # cs) i ds" "\<forall>j < i. \<forall>ds'. \<not> DT_at (c # cs) j ds'"
        by blast
      with no0 obtain k where k: "i = Suc k" by (cases i) auto
      have "DT_at cs k ds" using i(1) k by (simp add: DT_at_Cons)
      moreover have "\<forall>j < k. \<forall>ds'. \<not> DT_at cs j ds'"
      proof (intro allI impI)
        fix j ds' assume "j < k"
        then have "Suc j < i" using k by simp
        with i(2) have "\<not> DT_at (c # cs) (Suc j) ds'" by blast
        then show "\<not> DT_at cs j ds'" by (simp add: DT_at_Cons)
      qed
      ultimately show "\<exists>i. DT_at cs i ds \<and> (\<forall>j < i. \<forall>ds'. \<not> DT_at cs j ds')" by blast
    next
      assume "\<exists>i. DT_at cs i ds \<and> (\<forall>j < i. \<forall>ds'. \<not> DT_at cs j ds')"
      then obtain k where k: "DT_at cs k ds" "\<forall>j < k. \<forall>ds'. \<not> DT_at cs j ds'" by blast
      have "DT_at (c # cs) (Suc k) ds" using k(1) by (simp add: DT_at_Cons)
      moreover have "\<forall>j < Suc k. \<forall>ds'. \<not> DT_at (c # cs) j ds'"
      proof (intro allI impI)
        fix j ds' assume j: "j < Suc k"
        show "\<not> DT_at (c # cs) j ds'"
        proof (cases j)
          case 0
          with no0 show ?thesis by simp
        next
          case (Suc j')
          with j k(2) show ?thesis by (simp add: DT_at_Cons)
        qed
      qed
      ultimately show "\<exists>i. DT_at (c # cs) i ds \<and> (\<forall>j < i. \<forall>ds'. \<not> DT_at (c # cs) j ds')"
        by blast
    qed
    with None Cons.IH show ?thesis by simp
  qed
qed


lemma DT_at_append:
  "DT_at s i ds \<longleftrightarrow> (\<exists>pre post. length pre = i \<and> s = pre @ ''DT'' @ ds @ post \<and> digits8 ds)"
proof
  assume a: "DT_at s i ds"
  then have l: "length ds = 8" by (simp add: DT_at_def digits8_def)
  from a have t2: "take 2 (drop i s) = ''DT''" and t8: "take 8 (drop (i + 2) s) = ds"
    by (simp_all add: DT_at_def)
  from t2 have "length (take 2 (drop i s)) = 2" by simp
  then have il: "i \<le> length s" by (cases "i \<le> length s") auto
  have "s = take i s @ drop i s" by simp
  also have "drop i s = take 2 (drop i s) @ drop 2 (drop i s)"
    by (rule append_take_drop_id [symmetric])
  also have "drop 2 (drop i s) = drop (i + 2) s" by (simp add: add.commute)
  also have "drop (i + 2) s = take 8 (drop (i + 2) s) @ drop 8 (drop (i + 2) s)"
    by (rule append_take_drop_id [symmetric])
  finally have "s = take i s @ ''DT'' @ ds @ drop 8 (drop (i + 2) s)"
    unfolding t2 t8 by simp
  moreover have "length (take i s) = i" using il by simp
  ultimately show "\<exists>pre post. length pre = i \<and> s = pre @ ''DT'' @ ds @ post \<and> digits8 ds"
    using a by (metis DT_at_def)
next
  assume "\<exists>pre post. length pre = i \<and> s = pre @ ''DT'' @ ds @ post \<and> digits8 ds"
  then show "DT_at s i ds" by (auto simp: DT_at_def digits8_def)
qed

lemma DT_at_digits8: "DT_at s i ds \<Longrightarrow> digits8 ds"
  by (simp add: DT_at_def)

lemma date_fields_cases:
  "date_fields fname =
     (case re_search_DT fname of
        None \<Rightarrow> (None, ''Unknown Date'')
      | Some ds \<Rightarrow>
          if calendar_date ds
          then (Some ds, zpad 2 (day_of ds) @ '' '' @ month_name (month_of ds))
          else (Some ds, ds))"
proof (cases "re_search_DT fname")
  case None
  then show ?thesis by (simp add: date_fields_def)
next
  case (Some ds)
  then obtain i where "DT_at fname i ds" using re_search_DT_Some by blast
  then have "digits8 ds" by (rule DT_at_digits8)
  then show ?thesis
    using Some by (simp add: date_fields_def strptime_Ymd_digits8 strftime_dB_def midnight_def)
qed

lemma make_image_info_dates:
  "date_str (make_image_info g now b) = fst (date_fields (basename (blob_name b)))"
  "date_display (make_image_info g now b) = Some (snd (date_fields (basename (blob_name b))))"
  by (simp_all add: make_image_info_def Let_def split: prod.splits)


lemma collected_mem:
  "x \<in> set (collected g clock k bs) \<Longrightarrow> \<exists>b \<in> set bs. \<exists>i. x = make_image_info g (clock i) b"
  by (induction bs arbitrary: k) auto

lemma get_image_list_entries:
  assumes "get_image_list g clock = Inr images"
  shows "\<forall>x \<in> set images. \<exists>b \<in> set (listed_images g). \<exists>k. x = make_image_info g (clock k) b"
proof -
  from get_image_list_Inr [OF assms]
  have "set images = set (collected g clock 0 (listed_images g))" by simp
  then show ?thesis using collected_mem by blast
qed

lemma first_DT_date_str:
  assumes "DT_at (basename (blob_name b)) i ds"
    and "\<forall>j < i. \<forall>ds'. \<not> DT_at (basename (blob_name b)) j ds'"
  shows "re_search_DT (basename (blob_name b)) = Some ds"
  using assms re_search_DT_Some by blast

lemma sample_blob_name: "blob_name (sample_blob nm signs) = nm"
  by (simp add: sample_blob_def)


lemma misdated_listing_reloads: "\<forall>b \<in> set (listed_images misdated_listing). reload b = None"
  unfolding misdated_listing_def misdated_blob_def by code_simp

subsection \<open>Dates read from the file name\<close>




text \<open>
  C10. When the first group of eight digits after \<open>DT\<close> in the file name does not name a
  day of the calendar (month 13, day 40, 30 February, year 0000), \<open>get_image_list\<close> sets
  \<open>date_display\<close> to these eight digits, not to \<open>Unknown Date\<close>, and \<open>date_str\<close> to the
  same eight digits.
\<close>

theorem invalid_date_shown_raw:
  "(get_image_list g clock = Inr images \<longrightarrow>
      (\<forall>x \<in> set images. \<exists>b \<in> set (listed_images g). \<exists>k. x = make_image_info g (clock k) b))
   \<and> (\<forall>i ds. DT_at (basename (blob_name b)) i ds
            \<and> (\<forall>j < i. \<forall>ds'. \<not> DT_at (basename (blob_name b)) j ds')
            \<and> \<not> calendar_date ds
      \<longrightarrow> date_str (make_image_info g now b) = Some ds
          \<and> date_display (make_image_info g now b) = Some ds
          \<and> date_display (make_image_info g now b) \<noteq> Some ''Unknown Date'')"
proof (intro conjI allI impI)
  assume "get_image_list g clock = Inr images"
  then show "\<forall>x \<in> set images. \<exists>b \<in> set (listed_images g). \<exists>k. x = make_image_info g (clock k) b"
    by (rule get_image_list_entries)
next
  fix i ds
  assume a: "DT_at (basename (blob_name b)) i ds
            \<and> (\<forall>j < i. \<forall>ds'. \<not> DT_at (basename (blob_name b)) j ds')
            \<and> \<not> calendar_date ds"
  then have s: "re_search_DT (basename (blob_name b)) = Some ds"
    using first_DT_date_str by blast
  from a have nc: "\<not> calendar_date ds" by blast
  show "date_str (make_image_info g now b) = Some ds"
    by (simp add: make_image_info_dates date_fields_cases s)
  show "date_display (make_image_info g now b) = Some ds"
    using nc by (simp add: make_image_info_dates date_fields_cases s)
  from a have "length ds = 8" by (simp add: DT_at_def digits8_def)
  then have "ds \<noteq> ''Unknown Date''" by auto
  then show "date_display (make_image_info g now b) \<noteq> Some ''Unknown Date''"
    using nc by (simp add: make_image_info_dates date_fields_cases s)
qed

text \<open>The name \<open>photos/DT20251340_cam.jpg\<close> is listed with \<open>20251340\<close> in both fields.\<close>

theorem invalid_date_shown_raw_witness:
  "(\<exists>images. get_image_list misdated_listing sample_clock = Inr images)
   \<and> DT_at (basename (blob_name misdated_blob)) 0 ''20251340''
   \<and> \<not> calendar_date ''20251340''
   \<and> date_str (make_image_info misdated_listing (sample_clock 0) misdated_blob) = Some ''20251340''
   \<and> date_display (make_image_info misdated_listing (sample_clock 0) misdated_blob) = Some ''20251340''"
proof -
  obtain images where r: "get_image_list misdated_listing sample_clock = Inr images"
    using get_image_list_ok [OF misdated_listing_reloads] by blast
  have dt: "DT_at (basename (blob_name misdated_blob)) 0 ''20251340''"
    unfolding misdated_blob_def by code_simp
  have cal: "\<not> calendar_date ''20251340''" by code_simp
  note t = invalid_date_shown_raw [of misdated_listing sample_clock images misdated_blob "sample_clock 0"]
  from r have e: "\<exists>images. get_image_list misdated_listing sample_clock = Inr images" ..
  from t dt cal
  have d1: "date_str (make_image_info misdated_listing (sample_clock 0) misdated_blob) = Some ''20251340''"
    and d2: "date_display (make_image_info misdated_listing (sample_clock 0) misdated_blob) = Some ''20251340''"
    by blast+
  show ?thesis using e dt cal d1 d2 by - (intro conjI; assumption)
qed





subsection \<open>Signed URLs and recovery from errors\<close>




subsection \<open>The page count without its precondition\<close>







subsection \<open>The rendered page\<close>

lemma js_entry_keys:
  "map fst (js_entry img) =
     [''filename'', ''public_url'', ''size'', ''created'', ''content_type'', ''date_str'',
      ''date_display'']"
  by (simp add: js_entry_def Let_def)

lemma js_entry_lookup:
  "map_of (js_entry img) ''filename''
     = Some (JStr (if truthy (filename img)
                   then (case filename img of Some s \<Rightarrow> escape_quotes s | None \<Rightarrow> [])
                   else []))"
  "map_of (js_entry img) ''public_url''
     = Some (JStr (or_else (if truthy (public_url img)
                            then map_option escape_quotes (public_url img)
                            else public_url img) []))"
  "map_of (js_entry img) ''size''
     = Some (case size_bytes img of Some n \<Rightarrow> JInt n | None \<Rightarrow> JNull)"
  "map_of (js_entry img) ''created''
     = Some (case created img of Some dt \<Rightarrow> JStr (isoformat dt) | None \<Rightarrow> JNull)"
  "map_of (js_entry img) ''content_type'' = Some (JStr (or_else (content_type img) ''image/unknown''))"
  "map_of (js_entry img) ''date_str'' = Some (JStr (or_else (date_str img) []))"
  "map_of (js_entry img) ''date_display'' = Some (JStr (or_else (date_display img) ''Unknown Date''))"
  by (simp_all add: js_entry_def Let_def)

lemma or_else_missing: "\<not> truthy v \<Longrightarrow> or_else v d = d"
  by (simp add: or_else_def)

lemma or_else_present: "v = Some s \<Longrightarrow> s \<noteq> [] \<Longrightarrow> or_else v d = s"
  by (simp add: or_else_def truthy_def)



subsection \<open>Missing values in the embedded array\<close>

text \<open>
  C9, as stated, fails in its last part: \<open>created\<close> is not the only field that may be
  null. \<open>size\<close> is copied from the image as it is, and an image without a size (the
  storage client types \<open>blob.size\<close> as optional) is embedded with \<open>"size": null\<close>.
\<close>

theorem size_may_be_null:
  "size_bytes blank_image = None
   \<and> map_of (js_entry blank_image) ''size'' = Some JNull
   \<and> json_dumps_str ''size'' @ '': '' @ json_dumps_val JNull
       = [dquote] @ ''size'' @ [dquote] @ '': null''"
proof (intro conjI)
  show "size_bytes blank_image = None" by (simp add: blank_image_def)
  then show "map_of (js_entry blank_image) ''size'' = Some JNull"
    by (simp add: js_entry_lookup)
  show "json_dumps_str ''size'' @ '': '' @ json_dumps_val JNull
       = [dquote] @ ''size'' @ [dquote] @ '': null''"
    by code_simp
qed

text \<open>
  C9, amended. In the JSON array embedded in the generated page, the fields
  \<open>filename\<close>, \<open>public_url\<close>, \<open>date_str\<close>, \<open>content_type\<close> and \<open>date_display\<close> of every
  entry are strings, never null: a missing (or empty) value is replaced by the empty
  string for \<open>filename\<close>, \<open>public_url\<close> and \<open>date_str\<close>, by \<open>image/unknown\<close> for
  \<open>content_type\<close> and by \<open>Unknown Date\<close> for \<open>date_display\<close>. Only the fields \<open>created\<close>
  and \<open>size\<close> may be null: \<open>created\<close> when the image has no creation time, \<open>size\<close> when
  it has no size.
\<close>

theorem embedded_fields_not_null:
  "images_for_js images = map js_entry images
   \<and> map fst (js_entry img)
       = [''filename'', ''public_url'', ''size'', ''created'', ''content_type'', ''date_str'',
          ''date_display'']
   \<and> (\<exists>f u ct ds dd.
          map_of (js_entry img) ''filename'' = Some (JStr f)
          \<and> map_of (js_entry img) ''public_url'' = Some (JStr u)
          \<and> map_of (js_entry img) ''content_type'' = Some (JStr ct)
          \<and> map_of (js_entry img) ''date_str'' = Some (JStr ds)
          \<and> map_of (js_entry img) ''date_display'' = Some (JStr dd))
   \<and> (\<not> truthy (filename img) \<longrightarrow> map_of (js_entry img) ''filename'' = Some (JStr []))
   \<and> (\<not> truthy (public_url img) \<longrightarrow> map_of (js_entry img) ''public_url'' = Some (JStr []))
   \<and> (\<not> truthy (date_str img) \<longrightarrow> map_of (js_entry img) ''date_str'' = Some (JStr []))
   \<and> (\<not> truthy (content_type img)
        \<longrightarrow> map_of (js_entry img) ''content_type'' = Some (JStr ''image/unknown''))
   \<and> (\<not> truthy (date_display img)
        \<longrightarrow> map_of (js_entry img) ''date_display'' = Some (JStr ''Unknown Date''))
   \<and> (map_of (js_entry img) ''created'' = Some JNull \<longleftrightarrow> created img = None)
   \<and> (map_of (js_entry img) ''size'' = Some JNull \<longleftrightarrow> size_bytes img = None)
   \<and> (\<forall>k. (k, JNull) \<in> set (js_entry img) \<longrightarrow> k = ''created'' \<or> k = ''size'')"
proof (intro conjI impI)
  show "images_for_js images = map js_entry images"
    by (simp add: images_for_js_def)
  show "map fst (js_entry img)
       = [''filename'', ''public_url'', ''size'', ''created'', ''content_type'', ''date_str'',
          ''date_display'']"
    by (rule js_entry_keys)
  show "\<exists>f u ct ds dd.
          map_of (js_entry img) ''filename'' = Some (JStr f)
          \<and> map_of (js_entry img) ''public_url'' = Some (JStr u)
          \<and> map_of (js_entry img) ''content_type'' = Some (JStr ct)
          \<and> map_of (js_entry img) ''date_str'' = Some (JStr ds)
          \<and> map_of (js_entry img) ''date_display'' = Some (JStr dd)"
    unfolding js_entry_lookup by blast
  show "map_of (js_entry img) ''filename'' = Some (JStr [])" if "\<not> truthy (filename img)"
    using that by (simp add: js_entry_lookup)
  show "map_of (js_entry img) ''public_url'' = Some (JStr [])" if "\<not> truthy (public_url img)"
    using that by (simp add: js_entry_lookup or_else_missing)
  show "map_of (js_entry img) ''date_str'' = Some (JStr [])" if "\<not> truthy (date_str img)"
    using that by (simp add: js_entry_lookup or_else_missing)
  show "map_of (js_entry img) ''content_type'' = Some (JStr ''image/unknown'')"
    if "\<not> truthy (content_type img)"
    using that by (simp add: js_entry_lookup or_else_missing)
  show "map_of (js_entry img) ''date_display'' = Some (JStr ''Unknown Date'')"
    if "\<not> truthy (date_display img)"
    using that by (simp add: js_entry_lookup or_else_missing)
  show "map_of (js_entry img) ''created'' = Some JNull \<longleftrightarrow> created img = None"
    unfolding js_entry_lookup by (cases "created img") auto
  show "map_of (js_entry img) ''size'' = Some JNull \<longleftrightarrow> size_bytes img = None"
    unfolding js_entry_lookup by (cases "size_bytes img") auto
  show "\<forall>k. (k, JNull) \<in> set (js_entry img) \<longrightarrow> k = ''created'' \<or> k = ''size''"
    by (auto simp: js_entry_def Let_def)
qed

text \<open>
  An image dictionary whose values are all missing is embedded with the five default
  strings, and with null for \<open>created\<close> and \<open>size\<close>.
\<close>

theorem embedded_fields_not_null_witness:
  "\<not> truthy (filename blank_image) \<and> \<not> truthy (public_url blank_image)
   \<and> \<not> truthy (date_str blank_image) \<and> \<not> truthy (content_type blank_image)
   \<and> \<not> truthy (date_display blank_image)
   \<and> (''created'', JNull) \<in> set (js_entry blank_image)
   \<and> map_of (js_entry blank_image) ''filename'' = Some (JStr [])
   \<and> map_of (js_entry blank_image) ''public_url'' = Some (JStr [])
   \<and> map_of (js_entry blank_image) ''date_str'' = Some (JStr [])
   \<and> map_of (js_entry blank_image) ''content_type'' = Some (JStr ''image/unknown'')
   \<and> map_of (js_entry blank_image) ''date_display'' = Some (JStr ''Unknown Date'')
   \<and> map_of (js_entry blank_image) ''created'' = Some JNull
   \<and> map_of (js_entry blank_image) ''size'' = Some JNull
   \<and> js_entry blank_image
       = [(''filename'', JStr []), (''public_url'', JStr []), (''size'', JNull),
          (''created'', JNull), (''content_type'', JStr ''image/unknown''),
          (''date_str'', JStr []), (''date_display'', JStr ''Unknown Date'')]"
proof -
  note t = embedded_fields_not_null [of "[blank_image]" blank_image]
  have m: "\<not> truthy (filename blank_image)" "\<not> truthy (public_url blank_image)"
    "\<not> truthy (date_str blank_image)" "\<not> truthy (content_type blank_image)"
    "\<not> truthy (date_display blank_image)"
    by (simp_all add: blank_image_def truthy_def)
  have n: "created blank_image = None" "size_bytes blank_image = None"
    by (simp_all add: blank_image_def)
  from t m n have v:
    "map_of (js_entry blank_image) ''filename'' = Some (JStr [])"
    "map_of (js_entry blank_image) ''public_url'' = Some (JStr [])"
    "map_of (js_entry blank_image) ''date_str'' = Some (JStr [])"
    "map_of (js_entry blank_image) ''content_type'' = Some (JStr ''image/unknown'')"
    "map_of (js_entry blank_image) ''date_display'' = Some (JStr ''Unknown Date'')"
    "map_of (js_entry blank_image) ''created'' = Some JNull"
    "map_of (js_entry blank_image) ''size'' = Some JNull"
    by blast+
  from t have k: "map fst (js_entry blank_image)
       = [''filename'', ''public_url'', ''size'', ''created'', ''content_type'', ''date_str'',
          ''date_display'']"
    by blast
  have e: "js_entry blank_image
       = [(''filename'', JStr []), (''public_url'', JStr []), (''size'', JNull),
          (''created'', JNull), (''content_type'', JStr ''image/unknown''),
          (''date_str'', JStr []), (''date_display'', JStr ''Unknown Date'')]"
    using m n by (simp add: js_entry_def Let_def or_else_missing)
  from t e have c: "(''created'', JNull) \<in> set (js_entry blank_image)" by simp
  show ?thesis using m c v e by - (intro conjI; assumption)
qed

subsection \<open>Strings in the embedded array\<close>

lemma code_point_char_of: "k < 256 \<Longrightarrow> code_point (char_of k) = k"
  by (simp add: code_point_def)

lemma char_of_code_point: "code_point c = k \<Longrightarrow> char_of k = c"
  by (auto simp: code_point_def)

lemma code_point_less: "code_point c < 256"
  by (simp add: code_point_def)

lemma hex_val_hex_digit: "d < 16 \<Longrightarrow> hex_val (hex_digit d) = Some d"
  by (simp add: hex_val_def hex_digit_def code_point_char_of Let_def)

lemma hex4_of_code_point:
  "hex4 (CHR ''0'') (CHR ''0'') (hex_digit (code_point c div 16)) (hex_digit (code_point c mod 16))
     = Some (code_point c)"
proof -
  have z: "hex_val (CHR ''0'') = Some 0" by (simp add: hex_val_def code_point_def)
  have "code_point c div 16 < 16" using code_point_less [of c] by simp
  then have h: "hex_val (hex_digit (code_point c div 16)) = Some (code_point c div 16)"
    by (rule hex_val_hex_digit)
  have l: "hex_val (hex_digit (code_point c mod 16)) = Some (code_point c mod 16)"
    by (rule hex_val_hex_digit) simp
  show ?thesis by (simp add: hex4_def z h l)
qed

lemma quote_codes: "code_point dquote = 34" "code_point backslash = 92"
  by (simp_all add: dquote_def backslash_def code_point_def)

lemma json_unescape_simple:
  assumes "simple_escape e = Some ch" "e \<noteq> CHR ''u''"
  shows "json_unescape (backslash # e # r) = map_option (Cons ch) (json_unescape r)"
  using assms by (simp add: dquote_def backslash_def)

lemma json_unescape_u:
  assumes "hex4 h1 h2 h3 h4 = Some n" "n < 256"
  shows "json_unescape (backslash # CHR ''u'' # h1 # h2 # h3 # h4 # r)
           = map_option (Cons (char_of n)) (json_unescape r)"
  using assms by (simp add: dquote_def backslash_def)

lemma json_unescape_plain:
  assumes "c \<noteq> dquote" "c \<noteq> backslash" "32 \<le> code_point c" "r \<noteq> []"
  shows "json_unescape (c # r) = map_option (Cons c) (json_unescape r)"
proof -
  from assms(4) obtain e r' where "r = e # r'" by (cases r) auto
  with assms(1-3) show ?thesis by simp
qed

lemma json_unescape_escape_char:
  assumes "r \<noteq> []"
  shows "json_unescape (json_escape_char c @ r) = map_option (Cons c) (json_unescape r)"
proof -
  consider (q) "c = dquote" | (b) "c = backslash"
    | (n) "code_point c = 10" | (r) "code_point c = 13" | (t) "code_point c = 9"
    | (bs) "code_point c = 8" | (f) "code_point c = 12"
    | (p) "c \<noteq> dquote" "c \<noteq> backslash" "32 \<le> code_point c" "code_point c \<le> 126"
    | (u) "c \<noteq> dquote" "c \<noteq> backslash" "code_point c \<noteq> 10" "code_point c \<noteq> 13"
          "code_point c \<noteq> 9" "code_point c \<noteq> 8" "code_point c \<noteq> 12"
          "\<not> (32 \<le> code_point c \<and> code_point c \<le> 126)"
    by blast
  then show ?thesis
  proof cases
    case q
    have "json_escape_char c = [backslash, dquote]"
      by (simp add: json_escape_char_def q)
    moreover have "simple_escape dquote = Some dquote" "dquote \<noteq> CHR ''u''"
      by (simp_all add: simple_escape_def dquote_def)
    ultimately show ?thesis by (simp add: json_unescape_simple q del: json_unescape.simps)
  next
    case b
    have "json_escape_char c = [backslash, backslash]"
      by (simp add: json_escape_char_def b dquote_def backslash_def)
    moreover have "simple_escape backslash = Some backslash" "backslash \<noteq> CHR ''u''"
      by (simp_all add: simple_escape_def dquote_def backslash_def)
    ultimately show ?thesis by (simp add: json_unescape_simple b del: json_unescape.simps)
  next
    case n
    then have ne: "c \<noteq> dquote" "c \<noteq> backslash" using quote_codes by auto
    have "json_escape_char c = [backslash, CHR ''n'']"
      by (simp add: json_escape_char_def n ne)
    moreover have "simple_escape (CHR ''n'') = Some (char_of (10::nat))" "CHR ''n'' \<noteq> CHR ''u''"
      by (simp_all add: simple_escape_def dquote_def backslash_def)
    moreover have "char_of (10::nat) = c" using n by (rule char_of_code_point)
    ultimately show ?thesis by (simp add: json_unescape_simple del: json_unescape.simps)
  next
    case r
    then have ne: "c \<noteq> dquote" "c \<noteq> backslash" using quote_codes by auto
    have "json_escape_char c = [backslash, CHR ''r'']"
      by (simp add: json_escape_char_def r ne)
    moreover have "simple_escape (CHR ''r'') = Some (char_of (13::nat))" "CHR ''r'' \<noteq> CHR ''u''"
      by (simp_all add: simple_escape_def dquote_def backslash_def)
    moreover have "char_of (13::nat) = c" using r by (rule char_of_code_point)
    ultimately show ?thesis by (simp add: json_unescape_simple del: json_unescape.simps)
  next
    case t
    then have ne: "c \<noteq> dquote" "c \<noteq> backslash" using quote_codes by auto
    have "json_escape_char c = [backslash, CHR ''t'']"
      by (simp add: json_escape_char_def t ne)
    moreover have "simple_escape (CHR ''t'') = Some (char_of (9::nat))" "CHR ''t'' \<noteq> CHR ''u''"
      by (simp_all add: simple_escape_def dquote_def backslash_def)
    moreover have "char_of (9::nat) = c" using t by (rule char_of_code_point)
    ultimately show ?thesis by (simp add: json_unescape_simple del: json_unescape.simps)
  next
    case bs
    then have ne: "c \<noteq> dquote" "c \<noteq> backslash" using quote_codes by auto
    have "json_escape_char c = [backslash, CHR ''b'']"
      by (simp add: json_escape_char_def bs ne)
    moreover have "simple_escape (CHR ''b'') = Some (char_of (8::nat))" "CHR ''b'' \<noteq> CHR ''u''"
      by (simp_all add: simple_escape_def dquote_def backslash_def)
    moreover have "char_of (8::nat) = c" using bs by (rule char_of_code_point)
    ultimately show ?thesis by (simp add: json_unescape_simple del: json_unescape.simps)
  next
    case f
    then have ne: "c \<noteq> dquote" "c \<noteq> backslash" using quote_codes by auto
    have "json_escape_char c = [backslash, CHR ''f'']"
      by (simp add: json_escape_char_def f ne)
    moreover have "simple_escape (CHR ''f'') = Some (char_of (12::nat))" "CHR ''f'' \<noteq> CHR ''u''"
      by (simp_all add: simple_escape_def dquote_def backslash_def)
    moreover have "char_of (12::nat) = c" using f by (rule char_of_code_point)
    ultimately show ?thesis by (simp add: json_unescape_simple del: json_unescape.simps)
  next
    case p
    then have "json_escape_char c = [c]"
      by (auto simp: json_escape_char_def Let_def)
    then show ?thesis using p assms by (simp add: json_unescape_plain del: json_unescape.simps)
  next
    case u
    then have "json_escape_char c =
        [backslash, CHR ''u'', CHR ''0'', CHR ''0'', hex_digit (code_point c div 16),
         hex_digit (code_point c mod 16)]"
      by (auto simp: json_escape_char_def Let_def)
    moreover have "char_of (code_point c) = c" by (simp add: code_point_def)
    ultimately show ?thesis
      using json_unescape_u [OF hex4_of_code_point code_point_less, of c r]
      by (simp del: json_unescape.simps)
  qed
qed

lemma json_unescape_escaped:
  "json_unescape (concat (map json_escape_char s) @ [dquote]) = Some s"
proof (induction s)
  case Nil
  then show ?case by simp
next
  case (Cons c s)
  have "json_unescape (json_escape_char c @ (concat (map json_escape_char s) @ [dquote]))
          = map_option (Cons c) (json_unescape (concat (map json_escape_char s) @ [dquote]))"
    by (rule json_unescape_escape_char) simp
  with Cons.IH show ?case by simp
qed

lemma json_loads_dumps_str: "json_loads_str (json_dumps_str s) = Some s"
  by (simp add: json_loads_str_def json_dumps_str_def json_unescape_escaped)

lemma str_replace_unchanged: "old \<notin> set s \<Longrightarrow> str_replace old new s = s"
  by (induction s) (auto simp: str_replace_def)

lemma length_str_replace_longer:
  "old \<in> set s \<Longrightarrow> length new = 2 \<Longrightarrow> length s < length (str_replace old new s)"
proof (induction s)
  case Nil
  then show ?case by simp
next
  case (Cons c s)
  have "length s \<le> length (str_replace old new s)"
    using Cons.prems(2) by (induction s) (auto simp: str_replace_def)
  with Cons show ?case by (auto simp: str_replace_def)
qed

lemma length_str_replace_ge:
  "length new = 2 \<Longrightarrow> length s \<le> length (str_replace old new s)"
  by (induction s) (auto simp: str_replace_def)

lemma escape_quotes_same_iff:
  "escape_quotes s = s \<longleftrightarrow> dquote \<notin> set s \<and> backslash \<notin> set s"
proof
  assume "dquote \<notin> set s \<and> backslash \<notin> set s"
  then show "escape_quotes s = s"
    by (simp add: escape_quotes_def str_replace_unchanged)
next
  assume e: "escape_quotes s = s"
  let ?t = "str_replace backslash [backslash, backslash] s"
  have l1: "length s \<le> length ?t" by (simp add: length_str_replace_ge)
  have l2: "length ?t \<le> length (escape_quotes s)"
    by (simp add: escape_quotes_def length_str_replace_ge)
  have b: "backslash \<notin> set s"
  proof
    assume "backslash \<in> set s"
    then have "length s < length ?t" by (simp add: length_str_replace_longer)
    with l2 e show False by simp
  qed
  then have t: "?t = s" by (simp add: str_replace_unchanged)
  have "dquote \<notin> set s"
  proof
    assume "dquote \<in> set s"
    then have "length s < length (str_replace dquote [backslash, dquote] s)"
      by (simp add: length_str_replace_longer)
    with e t show False by (simp add: escape_quotes_def)
  qed
  with b show "dquote \<notin> set s \<and> backslash \<notin> set s" by simp
qed

lemma embedded_filename_reads_escaped:
  assumes "filename img = Some s" "s \<noteq> []"
  shows "\<exists>v. map_of (js_entry img) ''filename'' = Some v
           \<and> json_loads_str (json_dumps_val v) = Some (escape_quotes s)"
  using assms by (simp add: js_entry_lookup truthy_def json_loads_dumps_str)

text \<open>
  C7 asks for a round trip: reading the JSON array embedded in the page gives back the
  \<open>filename\<close> and \<open>public_url\<close> of every image, quotes and backslashes included. The
  program escapes quotes and backslashes by hand and then gives the result to
  \<open>json.dumps\<close>, which escapes them again, so what is read back is the text escaped by
  hand (\<open>embedded_filename_reads_escaped\<close>), which is the original only when it holds
  neither character (\<open>escape_quotes_same_iff\<close>); \<open>json.dumps\<close> alone would round-trip
  (\<open>json_loads_dumps_str\<close>). For the file name \<open>a"b\<close> the page holds the literal
  \<open>"a\\\"b"\<close>, which reads as \<open>a\"b\<close>.
\<close>

theorem quoted_filename_not_read_back:
  "filename quoted_image = Some (''a'' @ [dquote] @ ''b'')
   \<and> map_of (js_entry quoted_image) ''filename''
       = Some (JStr (''a'' @ [backslash, dquote] @ ''b''))
   \<and> take 22 (json_dumps (images_for_js [quoted_image]))
       = ''[{'' @ [dquote] @ ''filename'' @ [dquote] @ '': ''
         @ [dquote] @ ''a'' @ [backslash, backslash, backslash, dquote] @ ''b'' @ [dquote]
   \<and> json_loads_str ([dquote] @ ''a'' @ [backslash, backslash, backslash, dquote] @ ''b'' @ [dquote])
       = Some (''a'' @ [backslash, dquote] @ ''b'')
   \<and> ''a'' @ [backslash, dquote] @ ''b'' \<noteq> ''a'' @ [dquote] @ ''b''
   \<and> json_loads_str (json_dumps_str (''a'' @ [dquote] @ ''b'')) = Some (''a'' @ [dquote] @ ''b'')"
proof (intro conjI)
  show "filename quoted_image = Some (''a'' @ [dquote] @ ''b'')"
    by (simp add: quoted_image_def sample_image_def)
  show "map_of (js_entry quoted_image) ''filename''
       = Some (JStr (''a'' @ [backslash, dquote] @ ''b''))"
    by code_simp
  show "take 22 (json_dumps (images_for_js [quoted_image]))
       = ''[{'' @ [dquote] @ ''filename'' @ [dquote] @ '': ''
         @ [dquote] @ ''a'' @ [backslash, backslash, backslash, dquote] @ ''b'' @ [dquote]"
    by code_simp
  show "json_loads_str ([dquote] @ ''a'' @ [backslash, backslash, backslash, dquote] @ ''b'' @ [dquote])
       = Some (''a'' @ [backslash, dquote] @ ''b'')"
    by code_simp
  show "''a'' @ [backslash, dquote] @ ''b'' \<noteq> ''a'' @ [dquote] @ ''b''"
    by (simp add: dquote_def backslash_def)
  show "json_loads_str (json_dumps_str (''a'' @ [dquote] @ ''b'')) = Some (''a'' @ [dquote] @ ''b'')"
    by (rule json_loads_dumps_str)
qed

end
